theory Spec2Isabelle
  imports Complex_Main
begin

section \<open>ip2whois: the redaction filter and the key-fallback driver\<close>

text \<open>
  The program is one Go file, \<^verbatim>\<open>main.go\<close>, with three functions:
  \<^verbatim>\<open>fetchIP2Whois\<close> (one request to the WHOIS API with one key),
  \<^verbatim>\<open>removeRedactedAndEmptyFields\<close> (the recursive filter) and \<^verbatim>\<open>main\<close>
  (flags, the loop over the keys, printing). Each is embedded below under its own name.
  What the program takes from Go's standard library (\<^verbatim>\<open>strings.Contains\<close>,
  \<^verbatim>\<open>strings.Split\<close>, \<^verbatim>\<open>strings.TrimSpace\<close>) is modelled from the library's
  documented behaviour; the network and \<^verbatim>\<open>encoding/json\<close> are parameters
  (a \<open>world\<close>).
\<close>

subsection \<open>Decoded JSON\<close>

text \<open>
  \<^verbatim>\<open>json.Unmarshal\<close> into \<^verbatim>\<open>map[string]interface{}\<close> yields values of six
  dynamic types: \<^verbatim>\<open>nil\<close>, \<^verbatim>\<open>bool\<close>, \<^verbatim>\<open>float64\<close>, \<^verbatim>\<open>string\<close>,
  \<^verbatim>\<open>[]interface{}\<close> and \<^verbatim>\<open>map[string]interface{}\<close>. A Go string is a
  sequence of bytes, as a HOL \<open>string\<close> is. The filter never looks inside a number;
  numbers are carried as reals.

  A Go map holds each key once and has no iteration order. It is represented by the list
  of its entries, in the order in which \<^verbatim>\<open>range\<close> happens to visit them; the
  entries of a map have distinct keys, \<open>distinct (map fst m)\<close>, and \<open>map_of m\<close> is
  the map as a lookup function.
\<close>

datatype json =
    JNull
  | JBool bool
  | JNum real
  | JStr string
  | JArr "json list"
  | JObj "(string \<times> json) list"

type_synonym obj = "(string \<times> json) list"

subsection \<open>\<^verbatim>\<open>strings.Contains\<close>\<close>

text \<open>
  \<^verbatim>\<open>strings.HasPrefix(s, prefix)\<close>: \<open>s\<close> begins with \<open>prefix\<close>.
  \<^verbatim>\<open>strings.Contains(s, substr)\<close>: \<open>substr\<close> occurs in \<open>s\<close> at some byte
  position; the empty string occurs in every string.
\<close>

fun HasPrefix :: "string \<Rightarrow> string \<Rightarrow> bool" where
  "HasPrefix s [] = True"
| "HasPrefix [] (p # ps) = False"
| "HasPrefix (c # s) (p # ps) = (c = p \<and> HasPrefix s ps)"

fun Contains :: "string \<Rightarrow> string \<Rightarrow> bool" where
  "Contains [] substr = (substr = [])"
| "Contains (c # s) substr = (HasPrefix (c # s) substr \<or> Contains s substr)"

subsection \<open>\<^verbatim>\<open>removeRedactedAndEmptyFields\<close>\<close>

text \<open>
  \<^verbatim>\<open>
  cleaned := make(map[string]interface{})
  for key, value := range data {
      switch v := value.(type) {
      case string:                 if v != "" && !strings.Contains(v, "REDACTED") { cleaned[key] = v }
      case map[string]interface{}: cleanedNested := removeRedactedAndEmptyFields(v)
                                   if len(cleanedNested) > 0 { cleaned[key] = cleanedNested }
      case []interface{}:          if len(v) > 0 { cleaned[key] = v }
      default:                     if v != nil { cleaned[key] = v }
      }
  }
  return cleaned
  \<close>
  The loop visits every entry of \<open>data\<close> once. The keys of \<open>data\<close> are distinct, so
  each \<^verbatim>\<open>cleaned[key] = ...\<close> adds an entry under a key that \<open>cleaned\<close> does not have
  yet: the result is the list of the entries that were stored. The \<^verbatim>\<open>default\<close> branch
  receives \<^verbatim>\<open>nil\<close>, booleans and numbers.
\<close>

function removeRedactedAndEmptyFields :: "obj \<Rightarrow> obj" where
  "removeRedactedAndEmptyFields [] = []"
| "removeRedactedAndEmptyFields ((key, value) # data) =
     (let cleaned = removeRedactedAndEmptyFields data in
      case value of
        JStr v \<Rightarrow>
          if v \<noteq> [] \<and> \<not> Contains v ''REDACTED'' then (key, JStr v) # cleaned else cleaned
      | JObj v \<Rightarrow>
          (let cleanedNested = removeRedactedAndEmptyFields v in
           if length cleanedNested > 0 then (key, JObj cleanedNested) # cleaned else cleaned)
      | JArr v \<Rightarrow>
          if length v > 0 then (key, JArr v) # cleaned else cleaned
      | JNull \<Rightarrow> cleaned
      | _ \<Rightarrow> (key, value) # cleaned)"
  by pat_completeness auto
termination
  by (relation "measure (size_list (size_prod (\<lambda>_. 0) size))") auto

text \<open>The mapping of the specification's scenario, and the mapping it expects.\<close>

definition scenarioInput :: obj where
  "scenarioInput =
     [(''a'', JStr ''REDACTED FOR PRIVACY''), (''b'', JStr ''''), (''c'', JStr ''ok''),
      (''d'', JObj [(''e'', JStr ''REDACTED'')]), (''f'', JObj [(''g'', JStr ''ok'')]),
      (''h'', JArr []), (''i'', JArr [JNum 1, JNum 2]), (''j'', JNull), (''k'', JNum 5)]"

definition scenarioOutput :: obj where
  "scenarioOutput =
     [(''c'', JStr ''ok''), (''f'', JObj [(''g'', JStr ''ok'')]),
      (''i'', JArr [JNum 1, JNum 2]), (''k'', JNum 5)]"

text \<open>
  A map with an empty sequence and with a sequence whose elements would all be dropped
  if they were values of a key.
\<close>

definition sequenceExample :: obj where
  "sequenceExample =
     [(''h'', JArr []),
      (''i'', JArr [JStr ''REDACTED'', JNull, JStr '''', JObj [(''e'', JNull)], JArr []])]"

subsection \<open>\<^verbatim>\<open>strings.Split\<close> and \<^verbatim>\<open>strings.TrimSpace\<close>\<close>

text \<open>
  \<^verbatim>\<open>strings.Split(s, ",")\<close> cuts \<open>s\<close> at every comma: a string with \<open>n\<close> commas
  gives \<open>n + 1\<close> pieces, some of them possibly empty, and the empty string gives one
  empty piece. The program only splits at the one-byte separator \<^verbatim>\<open>","\<close>, so the
  separator is a byte here.
\<close>

fun Split :: "string \<Rightarrow> char \<Rightarrow> string list" where
  "Split [] sep = [[]]"
| "Split (c # s) sep =
     (if c = sep then [] # Split s sep
      else (case Split s sep of t # ts \<Rightarrow> (c # t) # ts | [] \<Rightarrow> [[c]]))"

text \<open>
  \<^verbatim>\<open>strings.TrimSpace(s)\<close> removes all leading and trailing white space, as Unicode
  defines it (\<^verbatim>\<open>unicode.IsSpace\<close>): U+0009 to U+000D, U+0020, U+0085, U+00A0, U+1680,
  U+2000 to U+200A, U+2028, U+2029, U+202F, U+205F and U+3000. \<open>spaceRunes\<close> lists their
  UTF-8 encodings. Go decodes a white-space rune at the start (at the end) of a string
  exactly when the string starts (ends) with one of these byte sequences.
\<close>

definition spaceRunes :: "string list" where
  "spaceRunes =
     [[CHR 0x09], [CHR 0x0A], [CHR 0x0B], [CHR 0x0C], [CHR 0x0D], [CHR 0x20],
      [CHR 0xC2, CHR 0x85], [CHR 0xC2, CHR 0xA0],
      [CHR 0xE1, CHR 0x9A, CHR 0x80],
      [CHR 0xE2, CHR 0x80, CHR 0x80], [CHR 0xE2, CHR 0x80, CHR 0x81],
      [CHR 0xE2, CHR 0x80, CHR 0x82], [CHR 0xE2, CHR 0x80, CHR 0x83],
      [CHR 0xE2, CHR 0x80, CHR 0x84], [CHR 0xE2, CHR 0x80, CHR 0x85],
      [CHR 0xE2, CHR 0x80, CHR 0x86], [CHR 0xE2, CHR 0x80, CHR 0x87],
      [CHR 0xE2, CHR 0x80, CHR 0x88], [CHR 0xE2, CHR 0x80, CHR 0x89],
      [CHR 0xE2, CHR 0x80, CHR 0x8A],
      [CHR 0xE2, CHR 0x80, CHR 0xA8], [CHR 0xE2, CHR 0x80, CHR 0xA9],
      [CHR 0xE2, CHR 0x80, CHR 0xAF], [CHR 0xE2, CHR 0x81, CHR 0x9F],
      [CHR 0xE3, CHR 0x80, CHR 0x80]]"

text \<open>
  The number of bytes of the white-space rune that \<open>s\<close> starts with (ends with), and
  \<open>0\<close> when it starts (ends) with none.
\<close>

definition leadingSpace :: "string \<Rightarrow> nat" where
  "leadingSpace s =
     (case find (HasPrefix s) spaceRunes of Some r \<Rightarrow> length r | None \<Rightarrow> 0)"

definition trailingSpace :: "string \<Rightarrow> nat" where
  "trailingSpace s =
     (case find (\<lambda>r. HasPrefix (rev s) (rev r)) spaceRunes of
        Some r \<Rightarrow> length r
      | None \<Rightarrow> 0)"

function TrimLeft :: "string \<Rightarrow> string" where
  "TrimLeft s = (if leadingSpace s = 0 then s else TrimLeft (drop (leadingSpace s) s))"
  by pat_completeness auto
termination
proof (relation "measure length")
  show "wf (measure length)" by simp
next
  fix s :: string
  assume pos: "leadingSpace s \<noteq> 0"
  have "s \<noteq> []"
  proof
    assume "s = []"
    then have "find (HasPrefix s) spaceRunes = None"
      by (simp add: spaceRunes_def)
    then show False using pos by (simp add: leadingSpace_def)
  qed
  with pos show "(drop (leadingSpace s) s, s) \<in> measure length" by simp
qed

function TrimRight :: "string \<Rightarrow> string" where
  "TrimRight s =
     (if trailingSpace s = 0 then s else TrimRight (take (length s - trailingSpace s) s))"
  by pat_completeness auto
termination
proof (relation "measure length")
  show "wf (measure length)" by simp
next
  fix s :: string
  assume pos: "trailingSpace s \<noteq> 0"
  have "s \<noteq> []"
  proof
    assume "s = []"
    then have "find (\<lambda>r. HasPrefix (rev s) (rev r)) spaceRunes = None"
      by (simp add: spaceRunes_def)
    then show False using pos by (simp add: trailingSpace_def)
  qed
  with pos show "(take (length s - trailingSpace s) s, s) \<in> measure length" by simp
qed

declare TrimLeft.simps [simp del] TrimRight.simps [simp del]

definition TrimSpace :: "string \<Rightarrow> string" where
  "TrimSpace s = TrimRight (TrimLeft s)"

subsection \<open>The world outside the program\<close>

text \<open>
  The program calls \<^verbatim>\<open>http.Get\<close>, \<^verbatim>\<open>ioutil.ReadAll\<close>, \<^verbatim>\<open>json.Unmarshal\<close>
  and \<^verbatim>\<open>json.MarshalIndent\<close>. What they answer is a parameter of the model:
  \<^item> \<open>Get url\<close> is the error of \<^verbatim>\<open>http.Get(url)\<close> (\<open>Inl\<close>, with its message) or
    the response; a response has its status code and what \<^verbatim>\<open>ioutil.ReadAll\<close> gives
    for its body, an error or the bytes;
  \<^item> \<open>Unmarshal body\<close> is the error of \<^verbatim>\<open>json.Unmarshal(body, &m)\<close> for a fresh
    \<^verbatim>\<open>var m map[string]interface{}\<close>, or the value of \<open>m\<close> afterwards. The JSON text
    \<^verbatim>\<open>null\<close> decodes without error and leaves \<open>m\<close> the nil map, which is \<open>None\<close>
    here; a nil map has no entries;
  \<^item> \<open>MarshalIndent m\<close> is the error or the text of
    \<^verbatim>\<open>json.MarshalIndent(m, "", "  ")\<close>.
  Each is a function: the same request, the same text, the same value give the same
  answer.
\<close>

record response =
  StatusCode :: int
  Body :: "string + string"

record world =
  Get :: "string \<Rightarrow> string + response"
  Unmarshal :: "string \<Rightarrow> string + obj option"
  MarshalIndent :: "obj option \<Rightarrow> string + string"

text \<open>
  What the program does to the outside: the URLs it requests, and the lines it prints on
  standard output, both oldest first.
\<close>

record state =
  requests :: "string list"
  stdout :: "string list"

definition Println :: "string \<Rightarrow> state \<Rightarrow> state" where
  "Println line st = st\<lparr>stdout := stdout st @ [line]\<rparr>"

text \<open>The entries of a map that may be nil, and the test \<^verbatim>\<open>_, ok := m[k]\<close>.\<close>

fun entries :: "obj option \<Rightarrow> obj" where
  "entries None = []"
| "entries (Some m) = m"

definition hasKey :: "obj option \<Rightarrow> string \<Rightarrow> bool" where
  "hasKey m k = (map_of (entries m) k \<noteq> None)"

subsection \<open>\<^verbatim>\<open>fetchIP2Whois\<close>\<close>

text \<open>
  The function returns \<^verbatim>\<open>(string, error)\<close>. Its five error returns give five
  different error values, one constructor each, in the order of the source:
  the error of \<^verbatim>\<open>http.Get\<close>; \<^verbatim>\<open>"Error: Received status code %d"\<close>; the error of
  \<^verbatim>\<open>ioutil.ReadAll\<close>; the error of \<^verbatim>\<open>json.Unmarshal\<close>; and
  \<^verbatim>\<open>"API key failed: error in response"\<close>. On success it returns the body as text,
  not the decoded map.
\<close>

datatype error =
    GetError string
  | StatusError int
  | ReadError string
  | UnmarshalError string
  | ApiKeyError

definition requestURL :: "string \<Rightarrow> string \<Rightarrow> string" where
  "requestURL apiKey domain =
     ''https://api.ip2whois.com/v2?key='' @ apiKey @ ''&domain='' @ domain"

definition fetchIP2Whois ::
  "world \<Rightarrow> string \<Rightarrow> string \<Rightarrow> state \<Rightarrow> (error + string) \<times> state" where
  "fetchIP2Whois w apiKey domain st =
     (let url = requestURL apiKey domain;
          st1 = st\<lparr>requests := requests st @ [url]\<rparr>
      in case Get w url of
           Inl err \<Rightarrow> (Inl (GetError err), st1)
         | Inr resp \<Rightarrow>
             if StatusCode resp \<noteq> 200 then (Inl (StatusError (StatusCode resp)), st1)
             else (case Body resp of
                     Inl err \<Rightarrow> (Inl (ReadError err), st1)
                   | Inr body \<Rightarrow>
                       (case Unmarshal w body of
                          Inl err \<Rightarrow> (Inl (UnmarshalError err), st1)
                        | Inr result \<Rightarrow>
                            if hasKey result ''error'' then (Inl ApiKeyError, st1)
                            else (Inr body, st1))))"

text \<open>
  The outcome of a lookup with one key: what \<open>fetchIP2Whois\<close> returns, whatever was
  requested or printed before.
\<close>

definition lookup :: "world \<Rightarrow> string \<Rightarrow> string \<Rightarrow> error + string" where
  "lookup w apiKey domain =
     fst (fetchIP2Whois w apiKey domain \<lparr>requests = [], stdout = []\<rparr>)"

subsection \<open>\<^verbatim>\<open>main\<close>\<close>

text \<open>
  The loop \<^verbatim>\<open>for _, key := range keys\<close> either leaves the program through
  \<^verbatim>\<open>os.Exit(1)\<close> (\<open>Exit 1\<close>) or ends, by \<^verbatim>\<open>break\<close> or after the last key, with
  the value of \<^verbatim>\<open>success\<close> (\<open>Done success\<close>).
\<close>

datatype flow = Exit int | Done bool

fun tryKeys :: "world \<Rightarrow> string \<Rightarrow> bool \<Rightarrow> string list \<Rightarrow> state \<Rightarrow> flow \<times> state" where
  "tryKeys w domain hideRedacted [] st = (Done False, st)"
| "tryKeys w domain hideRedacted (key # keys) st =
     (case fetchIP2Whois w (TrimSpace key) domain st of
        (Inr response, st1) \<Rightarrow>
          (case Unmarshal w response of
             Inl err \<Rightarrow> (Exit 1, Println (''Error parsing JSON: '' @ err) st1)
           | Inr jsonData \<Rightarrow>
               (let jsonData' =
                      (if hideRedacted
                       then Some (removeRedactedAndEmptyFields (entries jsonData))
                       else jsonData)
                in case MarshalIndent w jsonData' of
                     Inl err \<Rightarrow> (Exit 1, Println (''Error formatting JSON: '' @ err) st1)
                   | Inr cleanedOutput \<Rightarrow> (Done True, Println cleanedOutput st1)))
      | (Inl err, st1) \<Rightarrow> tryKeys w domain hideRedacted keys st1)"

text \<open>
  \<open>main w apiKeys domain hideRedacted\<close>: the flags \<^verbatim>\<open>-k\<close>, \<^verbatim>\<open>-d\<close> and
  \<^verbatim>\<open>-clean\<close> as \<^verbatim>\<open>flag.Parse\<close> delivers them; the result is the exit code of the
  process, \<open>0\<close> when \<open>main\<close> returns, with the requests made and the lines printed.
\<close>

definition main :: "world \<Rightarrow> string \<Rightarrow> string \<Rightarrow> bool \<Rightarrow> int \<times> state" where
  "main w apiKeys domain hideRedacted =
     (let st = \<lparr>requests = [], stdout = []\<rparr> in
      if domain = [] then (1, Println ''Error: Domain (-d) flag is required.'' st)
      else if apiKeys = [] then (1, Println ''Error: API keys (-k) flag is required.'' st)
      else (case tryKeys w domain hideRedacted (Split apiKeys CHR '','') st of
              (Exit code, st1) \<Rightarrow> (code, st1)
            | (Done success, st1) \<Rightarrow>
                if \<not> success then (1, Println ''All API keys failed.'' st1) else (0, st1)))"

text \<open>
  The requests that the loop makes when it calls \<open>fetchIP2Whois\<close> for each of \<open>keys\<close>,
  in order: each key is trimmed, then put into the URL.
\<close>

definition requestsFor :: "string \<Rightarrow> string list \<Rightarrow> string list" where
  "requestsFor domain keys = map (\<lambda>key. requestURL (TrimSpace key) domain) keys"

subsection \<open>Two worlds to run the program in\<close>

text \<open>
  In \<open>offline\<close> no request gets through. In \<open>demoWorld\<close>, for the domain
  \<^verbatim>\<open>example.com\<close>, the request with key \<^verbatim>\<open>bad1\<close> times out, the key \<^verbatim>\<open>bad2\<close> is
  answered with status 200 and an error object, the key \<^verbatim>\<open>good\<close> with status 200 and
  a record, and every other request with status 401. The bodies are written without
  their double quotes; only what \<open>Unmarshal\<close> makes of them matters.
\<close>

definition offline :: world where
  "offline =
     \<lparr>Get = (\<lambda>url. Inl ''dial tcp: lookup api.ip2whois.com: no such host''),
      Unmarshal = (\<lambda>body. Inl ''unexpected end of JSON input''),
      MarshalIndent = (\<lambda>m. Inr ''null'')\<rparr>"

definition errorBody :: string where
  "errorBody = ''{error:{error_code:10001}}''"

definition demoBody :: string where
  "demoBody = ''{domain:example.com,registrant:{name:REDACTED FOR PRIVACY}}''"

definition demoRecord :: obj where
  "demoRecord =
     [(''domain'', JStr ''example.com''),
      (''registrant'', JObj [(''name'', JStr ''REDACTED FOR PRIVACY'')])]"

definition demoWorld :: world where
  "demoWorld =
     \<lparr>Get = (\<lambda>url.
        if url = ''https://api.ip2whois.com/v2?key=bad1&domain=example.com''
        then Inl ''context deadline exceeded''
        else if url = ''https://api.ip2whois.com/v2?key=bad2&domain=example.com''
        then Inr \<lparr>StatusCode = 200, Body = Inr errorBody\<rparr>
        else if url = ''https://api.ip2whois.com/v2?key=good&domain=example.com''
        then Inr \<lparr>StatusCode = 200, Body = Inr demoBody\<rparr>
        else Inr \<lparr>StatusCode = 401, Body = Inr []\<rparr>),
      Unmarshal = (\<lambda>body.
        if body = errorBody
        then Inr (Some [(''error'', JObj [(''error_code'', JNum 10001)])])
        else if body = demoBody then Inr (Some demoRecord)
        else Inl ''unexpected end of JSON input''),
      MarshalIndent = (\<lambda>m.
        if m = Some [(''domain'', JStr ''example.com'')] then Inr ''{domain:example.com}''
        else if m = Some demoRecord then Inr demoBody
        else Inr ''null'')\<rparr>"

section \<open>The redaction filter\<close>

subsection \<open>Substrings\<close>

lemma HasPrefix_iff: "HasPrefix s p \<longleftrightarrow> (\<exists>ss. s = p @ ss)"
  by (induction s p rule: HasPrefix.induct) auto

lemma Contains_iff: "Contains s substr \<longleftrightarrow> (\<exists>ps ss. s = ps @ substr @ ss)"
proof (induction s)
  case Nil
  then show ?case by simp
next
  case (Cons c s)
  show ?case
  proof
    assume "Contains (c # s) substr"
    then consider "HasPrefix (c # s) substr" | "Contains s substr" by auto
    then show "\<exists>ps ss. c # s = ps @ substr @ ss"
    proof cases
      case 1
      then obtain ss where "c # s = substr @ ss" by (auto simp: HasPrefix_iff)
      then have "c # s = [] @ substr @ ss" by simp
      then show ?thesis by blast
    next
      case 2
      then obtain ps ss where "s = ps @ substr @ ss" using Cons.IH by blast
      then have "c # s = (c # ps) @ substr @ ss" by simp
      then show ?thesis by blast
    qed
  next
    assume "\<exists>ps ss. c # s = ps @ substr @ ss"
    then obtain ps ss where eq: "c # s = ps @ substr @ ss" by blast
    show "Contains (c # s) substr"
    proof (cases ps)
      case Nil
      with eq have "HasPrefix (c # s) substr" by (auto simp: HasPrefix_iff)
      then show ?thesis by simp
    next
      case (Cons p ps')
      with eq have "s = ps' @ substr @ ss" by simp
      then have "Contains s substr" using Cons.IH by blast
      then show ?thesis by simp
    qed
  qed
qed

subsection \<open>Every entry is decided on its own\<close>

lemma clean_Cons:
  "removeRedactedAndEmptyFields ((k, v) # data) =
     removeRedactedAndEmptyFields [(k, v)] @ removeRedactedAndEmptyFields data"
  by (cases v) (auto simp: Let_def)

lemma clean_append:
  "removeRedactedAndEmptyFields (xs @ ys) =
     removeRedactedAndEmptyFields xs @ removeRedactedAndEmptyFields ys"
proof (induction xs)
  case Nil
  then show ?case by simp
next
  case (Cons e xs)
  obtain k v where e: "e = (k, v)" by (cases e)
  have "removeRedactedAndEmptyFields ((k, v) # xs @ ys) =
        removeRedactedAndEmptyFields [(k, v)] @ removeRedactedAndEmptyFields (xs @ ys)"
    by (rule clean_Cons)
  also have "\<dots> = removeRedactedAndEmptyFields [(k, v)] @
        removeRedactedAndEmptyFields xs @ removeRedactedAndEmptyFields ys"
    by (simp only: Cons.IH)
  also have "\<dots> = removeRedactedAndEmptyFields ((k, v) # xs) @ removeRedactedAndEmptyFields ys"
    using clean_Cons [of k v xs] by simp
  finally show ?case by (simp add: e)
qed

text \<open>What the \<^verbatim>\<open>switch\<close> does with one entry, kind by kind.\<close>

lemma clean_single:
  "removeRedactedAndEmptyFields [(k, JNull)] = []"
  "removeRedactedAndEmptyFields [(k, JBool b)] = [(k, JBool b)]"
  "removeRedactedAndEmptyFields [(k, JNum x)] = [(k, JNum x)]"
  "removeRedactedAndEmptyFields [(k, JStr s)] =
     (if s \<noteq> [] \<and> \<not> Contains s ''REDACTED'' then [(k, JStr s)] else [])"
  "removeRedactedAndEmptyFields [(k, JArr xs)] = (if xs = [] then [] else [(k, JArr xs)])"
  "removeRedactedAndEmptyFields [(k, JObj n)] =
     (if removeRedactedAndEmptyFields n = [] then []
      else [(k, JObj (removeRedactedAndEmptyFields n))])"
  by (simp_all add: Let_def)

lemma clean_single_key:
  "(k', v') \<in> set (removeRedactedAndEmptyFields [(k, v)]) \<Longrightarrow> k' = k"
  by (cases v) (auto simp: Let_def split: if_splits)

lemma clean_keys_subset:
  "fst ` set (removeRedactedAndEmptyFields m) \<subseteq> fst ` set m"
proof (induction m)
  case Nil
  then show ?case by simp
next
  case (Cons e m)
  obtain k v where e: "e = (k, v)" by (cases e)
  have "set (removeRedactedAndEmptyFields ((k, v) # m)) =
        set (removeRedactedAndEmptyFields [(k, v)]) \<union> set (removeRedactedAndEmptyFields m)"
    using clean_Cons [of k v m] by simp
  moreover have "fst ` set (removeRedactedAndEmptyFields [(k, v)]) \<subseteq> {k}"
    using clean_single_key by fastforce
  ultimately show ?case using Cons.IH e by auto
qed

lemma map_of_clean_absent:
  "k \<notin> fst ` set m \<Longrightarrow> map_of (removeRedactedAndEmptyFields m) k = None"
  using clean_keys_subset [of m] by (auto simp: map_of_eq_None_iff)

text \<open>
  In a map, whether a key survives and with which value depends on the entry of that key
  alone, not on the other entries and not on the order of the visit.
\<close>

lemma map_of_clean_entry:
  assumes "distinct (map fst m)" and "(k, v) \<in> set m"
  shows "map_of (removeRedactedAndEmptyFields m) k =
         map_of (removeRedactedAndEmptyFields [(k, v)]) k"
proof -
  from assms(2) obtain xs ys where m: "m = xs @ (k, v) # ys"
    by (auto dest: split_list)
  with assms(1) have "k \<notin> fst ` set xs" and "k \<notin> fst ` set ys" by auto
  then have none: "map_of (removeRedactedAndEmptyFields xs) k = None"
      "map_of (removeRedactedAndEmptyFields ys) k = None"
    by (simp_all add: map_of_clean_absent)
  have "removeRedactedAndEmptyFields m =
        removeRedactedAndEmptyFields xs @ removeRedactedAndEmptyFields [(k, v)] @
        removeRedactedAndEmptyFields ys"
    unfolding m using clean_append [of xs "(k, v) # ys"] clean_Cons [of k v ys] by simp
  then show ?thesis using none
    by (simp add: map_add_def split: option.splits)
qed

text \<open>The result is a map again: its keys are distinct.\<close>

lemma clean_distinct:
  "distinct (map fst m) \<Longrightarrow> distinct (map fst (removeRedactedAndEmptyFields m))"
proof (induction m)
  case Nil
  then show ?case by simp
next
  case (Cons e m)
  obtain k v where e: "e = (k, v)" by (cases e)
  from Cons.prems e have k: "k \<notin> fst ` set m" and d: "distinct (map fst m)" by auto
  have k': "k \<notin> fst ` set (removeRedactedAndEmptyFields m)"
    using k clean_keys_subset [of m] by blast
  show ?case using Cons.IH [OF d] k' unfolding e
    by (cases v) (auto simp: Let_def)
qed

text \<open>
  Two lists of entries of the same map (the same entries, visited in another order) give
  the same map.
\<close>

lemma clean_order_irrelevant:
  assumes "distinct (map fst m)" and "distinct (map fst m')" and "map_of m = map_of m'"
  shows "map_of (removeRedactedAndEmptyFields m) = map_of (removeRedactedAndEmptyFields m')"
proof
  fix k
  show "map_of (removeRedactedAndEmptyFields m) k = map_of (removeRedactedAndEmptyFields m') k"
  proof (cases "map_of m k")
    case None
    with assms(3) have "map_of m' k = None" by simp
    with None have "k \<notin> fst ` set m" and "k \<notin> fst ` set m'"
      by (simp_all add: map_of_eq_None_iff)
    then show ?thesis by (simp add: map_of_clean_absent)
  next
    case (Some v)
    with assms(3) have "map_of m' k = Some v" by simp
    with Some have "(k, v) \<in> set m" and "(k, v) \<in> set m'"
      by (auto dest: map_of_SomeD)
    with assms(1,2) show ?thesis by (simp add: map_of_clean_entry)
  qed
qed

text \<open>Every entry of the result comes from an entry of the input with the same key.\<close>

lemma clean_source:
  assumes "(k, v) \<in> set (removeRedactedAndEmptyFields m)"
  shows "\<exists>v0. (k, v0) \<in> set m \<and> removeRedactedAndEmptyFields [(k, v0)] = [(k, v)]"
  using assms
proof (induction m)
  case Nil
  then show ?case by simp
next
  case (Cons e m)
  obtain k1 v1 where e: "e = (k1, v1)" by (cases e)
  from Cons.prems have "(k, v) \<in> set (removeRedactedAndEmptyFields [(k1, v1)]) \<or>
      (k, v) \<in> set (removeRedactedAndEmptyFields m)"
    unfolding e using clean_Cons [of k1 v1 m] by auto
  then show ?case
  proof
    assume a: "(k, v) \<in> set (removeRedactedAndEmptyFields [(k1, v1)])"
    then have "k = k1" by (rule clean_single_key)
    moreover from a have "removeRedactedAndEmptyFields [(k1, v1)] = [(k, v)]"
      by (cases v1) (auto simp: Let_def split: if_splits)
    ultimately show ?thesis unfolding e by auto
  next
    assume "(k, v) \<in> set (removeRedactedAndEmptyFields m)"
    then show ?thesis using Cons.IH by auto
  qed
qed

subsection \<open>The claims about the filter\<close>

text \<open>
  C1. Every entry of the output of the filter has a value that is not null, and when the
  value is a string, the string is not empty and the marker \<^verbatim>\<open>REDACTED\<close> occurs
  nowhere in it (no \<open>ps\<close> and \<open>ss\<close> with \<open>s = ps @ ''REDACTED'' @ ss\<close>; bytes are
  compared, so the match is case-sensitive).
\<close>

theorem clean_values_present_and_unredacted:
  assumes "(k, v) \<in> set (removeRedactedAndEmptyFields m)"
  shows "v \<noteq> JNull \<and>
         (\<forall>s. v = JStr s \<longrightarrow> s \<noteq> [] \<and> \<not> (\<exists>ps ss. s = ps @ ''REDACTED'' @ ss))"
proof -
  from assms obtain v0 where "removeRedactedAndEmptyFields [(k, v0)] = [(k, v)]"
    using clean_source by blast
  then show ?thesis
    by (cases v0) (auto simp: Let_def Contains_iff split: if_splits)
qed

theorem clean_values_present_and_unredacted_witness:
  "(''c'', JStr ''ok'') \<in> set (removeRedactedAndEmptyFields scenarioInput) \<and>
   ''ok'' \<noteq> [] \<and> \<not> (\<exists>ps ss. ''ok'' = ps @ ''REDACTED'' @ ss)"
  using clean_values_present_and_unredacted [of "''c''" "JStr ''ok''" scenarioInput]
  by (simp add: scenarioInput_def)

text \<open>
  C2. The filter is idempotent: filtering the output of the filter changes nothing.
\<close>

theorem clean_idempotent:
  "removeRedactedAndEmptyFields (removeRedactedAndEmptyFields m) =
   removeRedactedAndEmptyFields m"
proof (induction m rule: removeRedactedAndEmptyFields.induct)
  case 1
  then show ?case by simp
next
  case (2 key "value" data)
  show ?case
  proof (cases "value")
    case (JObj n)
    then have "removeRedactedAndEmptyFields (removeRedactedAndEmptyFields n) =
               removeRedactedAndEmptyFields n"
      using "2.IH"(2) by simp
    then show ?thesis using "2.IH"(1) JObj by (auto simp: Let_def)
  qed (use "2.IH"(1) in \<open>auto simp: Let_def\<close>)
qed

theorem clean_idempotent_witness:
  "removeRedactedAndEmptyFields (removeRedactedAndEmptyFields scenarioInput) = scenarioOutput"
  using clean_idempotent [of scenarioInput]
  by (simp add: scenarioInput_def scenarioOutput_def)

text \<open>
  C3. In a map \<open>m\<close>, a key \<open>k\<close> whose value is a nested map \<open>n\<close> is kept exactly when the
  filtered \<open>n\<close> has an entry, and then its value is the filtered \<open>n\<close>; when the filtered
  \<open>n\<close> is empty, the output has no key \<open>k\<close>.
\<close>

theorem clean_nested_mapping:
  assumes "distinct (map fst m)" and "map_of m k = Some (JObj n)"
  shows "map_of (removeRedactedAndEmptyFields m) k =
         (if removeRedactedAndEmptyFields n = [] then None
          else Some (JObj (removeRedactedAndEmptyFields n)))"
proof -
  from assms(2) have "(k, JObj n) \<in> set m" by (rule map_of_SomeD)
  with assms(1) show ?thesis
    by (simp add: map_of_clean_entry clean_single(6))
qed

theorem clean_nested_mapping_witness:
  "distinct (map fst scenarioInput) \<and>
   map_of scenarioInput ''d'' = Some (JObj [(''e'', JStr ''REDACTED'')]) \<and>
   map_of (removeRedactedAndEmptyFields scenarioInput) ''d'' = None \<and>
   map_of scenarioInput ''f'' = Some (JObj [(''g'', JStr ''ok'')]) \<and>
   map_of (removeRedactedAndEmptyFields scenarioInput) ''f'' =
     Some (JObj [(''g'', JStr ''ok'')])"
  using clean_nested_mapping [of scenarioInput "''d''" "[(''e'', JStr ''REDACTED'')]"]
    clean_nested_mapping [of scenarioInput "''f''" "[(''g'', JStr ''ok'')]"]
  by (simp add: scenarioInput_def)

text \<open>
  C4. In a map \<open>m\<close>, a key \<open>k\<close> whose value is a sequence \<open>xs\<close> is kept exactly when
  \<open>xs\<close> has an element, and then its value is \<open>xs\<close> itself, whatever its elements
  are: the filter does not look at them.
\<close>

theorem clean_sequence:
  assumes "distinct (map fst m)" and "map_of m k = Some (JArr xs)"
  shows "map_of (removeRedactedAndEmptyFields m) k = (if xs = [] then None else Some (JArr xs))"
proof -
  from assms(2) have "(k, JArr xs) \<in> set m" by (rule map_of_SomeD)
  with assms(1) show ?thesis
    by (simp add: map_of_clean_entry clean_single(5))
qed

theorem clean_sequence_witness:
  "distinct (map fst sequenceExample) \<and>
   map_of sequenceExample ''h'' = Some (JArr []) \<and>
   map_of (removeRedactedAndEmptyFields sequenceExample) ''h'' = None \<and>
   map_of sequenceExample ''i'' =
     Some (JArr [JStr ''REDACTED'', JNull, JStr '''', JObj [(''e'', JNull)], JArr []]) \<and>
   map_of (removeRedactedAndEmptyFields sequenceExample) ''i'' =
     Some (JArr [JStr ''REDACTED'', JNull, JStr '''', JObj [(''e'', JNull)], JArr []])"
  using clean_sequence [of sequenceExample "''h''" "[]"]
    clean_sequence [of sequenceExample "''i''"
      "[JStr ''REDACTED'', JNull, JStr '''', JObj [(''e'', JNull)], JArr []]"]
  by (simp add: sequenceExample_def)

text \<open>
  C5. The scenario of the specification: the filter maps \<open>scenarioInput\<close> to
  \<open>scenarioOutput\<close>.
\<close>

theorem clean_scenario:
  "removeRedactedAndEmptyFields scenarioInput = scenarioOutput"
  by (simp add: scenarioInput_def scenarioOutput_def)

text \<open>
  C10. The keys of the output are keys of the input, and a key of the output whose input
  value is not a nested map has its input value, unchanged; a nested map is replaced by
  its filtered copy. The function reads \<^verbatim>\<open>data\<close> and assigns only to
  \<^verbatim>\<open>cleaned\<close>, which it creates with \<^verbatim>\<open>make\<close>: it is a function from
  the value of the input to a new value, and the input is the same after the call.
\<close>

theorem clean_keeps_or_drops:
  assumes "distinct (map fst m)"
  shows "dom (map_of (removeRedactedAndEmptyFields m)) \<subseteq> dom (map_of m) \<and>
         (\<forall>k v. map_of (removeRedactedAndEmptyFields m) k = Some v \<longrightarrow>
            (\<exists>v0. map_of m k = Some v0 \<and>
               (case v0 of
                  JObj n \<Rightarrow> v = JObj (removeRedactedAndEmptyFields n)
                | _ \<Rightarrow> v = v0)))"
proof (intro conjI allI impI)
  show "dom (map_of (removeRedactedAndEmptyFields m)) \<subseteq> dom (map_of m)"
    using clean_keys_subset [of m] by (simp add: dom_map_of_conv_image_fst)
next
  fix k v
  assume a: "map_of (removeRedactedAndEmptyFields m) k = Some v"
  then have "k \<in> fst ` set (removeRedactedAndEmptyFields m)"
    by (metis map_of_eq_None_iff option.distinct(1))
  then have "k \<in> fst ` set m" using clean_keys_subset by blast
  then obtain v0 where v0: "map_of m k = Some v0"
    by (metis map_of_eq_None_iff not_Some_eq)
  then have "(k, v0) \<in> set m" by (rule map_of_SomeD)
  with assms a have "map_of (removeRedactedAndEmptyFields [(k, v0)]) k = Some v"
    by (simp add: map_of_clean_entry)
  then have "case v0 of JObj n \<Rightarrow> v = JObj (removeRedactedAndEmptyFields n) | _ \<Rightarrow> v = v0"
    by (cases v0) (auto simp: Let_def split: if_splits)
  with v0 show "\<exists>v0. map_of m k = Some v0 \<and>
               (case v0 of
                  JObj n \<Rightarrow> v = JObj (removeRedactedAndEmptyFields n)
                | _ \<Rightarrow> v = v0)"
    by blast
qed

theorem clean_keeps_or_drops_witness:
  "distinct (map fst scenarioInput) \<and>
   dom (map_of (removeRedactedAndEmptyFields scenarioInput)) \<subseteq> dom (map_of scenarioInput) \<and>
   map_of (removeRedactedAndEmptyFields scenarioInput) ''i'' = Some (JArr [JNum 1, JNum 2]) \<and>
   map_of scenarioInput ''i'' = Some (JArr [JNum 1, JNum 2])"
proof -
  have d: "distinct (map fst scenarioInput)" by (simp add: scenarioInput_def)
  have i: "map_of (removeRedactedAndEmptyFields scenarioInput) ''i'' =
           Some (JArr [JNum 1, JNum 2])"
    by (simp add: scenarioInput_def)
  from clean_keeps_or_drops [OF d] i
  obtain v0 where "map_of scenarioInput ''i'' = Some v0"
    and "case v0 of JObj n \<Rightarrow> JArr [JNum 1, JNum 2] = JObj (removeRedactedAndEmptyFields n)
         | _ \<Rightarrow> JArr [JNum 1, JNum 2] = v0"
    by blast
  then have "map_of scenarioInput ''i'' = Some (JArr [JNum 1, JNum 2])"
    by (cases v0) auto
  with d i clean_keeps_or_drops [OF d] show ?thesis by blast
qed

section \<open>The lookup client\<close>

text \<open>
  A call of \<open>fetchIP2Whois\<close> makes one request, and its result does not depend on
  what was requested or printed before.
\<close>

lemma fetch_eq:
  "fetchIP2Whois w apiKey domain st =
     (lookup w apiKey domain, st\<lparr>requests := requests st @ [requestURL apiKey domain]\<rparr>)"
  by (simp add: fetchIP2Whois_def lookup_def Let_def split: sum.splits)

lemma lookup_Inr_iff:
  "lookup w apiKey domain = Inr body \<longleftrightarrow>
     (\<exists>resp result. Get w (requestURL apiKey domain) = Inr resp \<and> StatusCode resp = 200 \<and>
        Body resp = Inr body \<and> Unmarshal w body = Inr result \<and> \<not> hasKey result ''error'')"
  by (auto simp: fetchIP2Whois_def lookup_def Let_def split: sum.splits)

lemma lookup_Inl_iff:
  "lookup w apiKey domain = Inl e \<longleftrightarrow>
     (case Get w (requestURL apiKey domain) of
        Inl err \<Rightarrow> e = GetError err
      | Inr resp \<Rightarrow>
          if StatusCode resp \<noteq> 200 then e = StatusError (StatusCode resp)
          else (case Body resp of
                  Inl err \<Rightarrow> e = ReadError err
                | Inr body \<Rightarrow>
                    (case Unmarshal w body of
                       Inl err \<Rightarrow> e = UnmarshalError err
                     | Inr result \<Rightarrow> hasKey result ''error'' \<and> e = ApiKeyError)))"
  by (auto simp: fetchIP2Whois_def lookup_def Let_def split: sum.splits)

text \<open>
  C7. \<open>fetchIP2Whois\<close> succeeds exactly when the request is answered, the status is
  200, the body is read, the body decodes, and the decoded map has no key \<^verbatim>\<open>error\<close>;
  what it returns then is the body, the text of the record, which decodes to that map.
  In every other case it returns one of five errors, and each error tells which step
  failed: \<open>ApiKeyError\<close> is returned exactly when everything up to decoding went well
  and the decoded map has the key \<^verbatim>\<open>error\<close>; the errors of the transport
  (\<open>GetError\<close>, \<open>ReadError\<close>), of the status (\<open>StatusError\<close>) and of decoding
  (\<open>UnmarshalError\<close>) are other values.
\<close>

theorem fetch_classification:
  "(\<forall>body. fst (fetchIP2Whois w apiKey domain st) = Inr body \<longleftrightarrow>
      (\<exists>resp result. Get w (requestURL apiKey domain) = Inr resp \<and> StatusCode resp = 200 \<and>
         Body resp = Inr body \<and> Unmarshal w body = Inr result \<and>
         ''error'' \<notin> fst ` set (entries result))) \<and>
   (fst (fetchIP2Whois w apiKey domain st) = Inl ApiKeyError \<longleftrightarrow>
      (\<exists>resp body result. Get w (requestURL apiKey domain) = Inr resp \<and>
         StatusCode resp = 200 \<and> Body resp = Inr body \<and> Unmarshal w body = Inr result \<and>
         ''error'' \<in> fst ` set (entries result))) \<and>
   (\<forall>err. fst (fetchIP2Whois w apiKey domain st) = Inl (GetError err) \<longleftrightarrow>
      Get w (requestURL apiKey domain) = Inl err) \<and>
   (\<forall>code. fst (fetchIP2Whois w apiKey domain st) = Inl (StatusError code) \<longleftrightarrow>
      (\<exists>resp. Get w (requestURL apiKey domain) = Inr resp \<and> StatusCode resp = code \<and>
         code \<noteq> 200)) \<and>
   (\<forall>err. fst (fetchIP2Whois w apiKey domain st) = Inl (ReadError err) \<longleftrightarrow>
      (\<exists>resp. Get w (requestURL apiKey domain) = Inr resp \<and> StatusCode resp = 200 \<and>
         Body resp = Inl err)) \<and>
   (\<forall>err. fst (fetchIP2Whois w apiKey domain st) = Inl (UnmarshalError err) \<longleftrightarrow>
      (\<exists>resp body. Get w (requestURL apiKey domain) = Inr resp \<and> StatusCode resp = 200 \<and>
         Body resp = Inr body \<and> Unmarshal w body = Inl err))"
  unfolding fetch_eq fst_conv
  by (auto simp: lookup_Inr_iff lookup_Inl_iff hasKey_def map_of_eq_None_iff split: sum.splits)

theorem fetch_classification_witness:
  "fst (fetchIP2Whois demoWorld ''good'' ''example.com'' \<lparr>requests = [], stdout = []\<rparr>) =
     Inr demoBody \<and>
   fst (fetchIP2Whois demoWorld ''bad2'' ''example.com'' \<lparr>requests = [], stdout = []\<rparr>) =
     Inl ApiKeyError \<and>
   fst (fetchIP2Whois demoWorld ''bad1'' ''example.com'' \<lparr>requests = [], stdout = []\<rparr>) =
     Inl (GetError ''context deadline exceeded'') \<and>
   fst (fetchIP2Whois demoWorld ''other'' ''example.com'' \<lparr>requests = [], stdout = []\<rparr>) =
     Inl (StatusError 401)"
proof -
  have g:
    "Get demoWorld (requestURL ''good'' ''example.com'') =
       Inr \<lparr>StatusCode = 200, Body = Inr demoBody\<rparr>"
    "Get demoWorld (requestURL ''bad2'' ''example.com'') =
       Inr \<lparr>StatusCode = 200, Body = Inr errorBody\<rparr>"
    "Get demoWorld (requestURL ''bad1'' ''example.com'') = Inl ''context deadline exceeded''"
    "Get demoWorld (requestURL ''other'' ''example.com'') =
       Inr \<lparr>StatusCode = 401, Body = Inr []\<rparr>"
    by (simp_all add: demoWorld_def requestURL_def)
  have u: "Unmarshal demoWorld demoBody = Inr (Some demoRecord)"
    "Unmarshal demoWorld errorBody =
       Inr (Some [(''error'', JObj [(''error_code'', JNum 10001)])])"
    by (simp_all add: demoWorld_def demoBody_def errorBody_def)
  have 1: "fst (fetchIP2Whois demoWorld ''good'' ''example.com''
                  \<lparr>requests = [], stdout = []\<rparr>) = Inr demoBody"
    by (rule fetch_classification [THEN conjunct1, THEN spec, THEN iffD2])
      (simp add: g u demoRecord_def)
  have 2: "fst (fetchIP2Whois demoWorld ''bad2'' ''example.com''
                  \<lparr>requests = [], stdout = []\<rparr>) = Inl ApiKeyError"
    by (rule fetch_classification [THEN conjunct2, THEN conjunct1, THEN iffD2])
      (simp add: g u demoRecord_def)
  have 3: "fst (fetchIP2Whois demoWorld ''bad1'' ''example.com''
                  \<lparr>requests = [], stdout = []\<rparr>) = Inl (GetError ''context deadline exceeded'')"
    by (rule fetch_classification
        [THEN conjunct2, THEN conjunct2, THEN conjunct1, THEN spec, THEN iffD2])
      (simp add: g)
  have 4: "fst (fetchIP2Whois demoWorld ''other'' ''example.com''
                  \<lparr>requests = [], stdout = []\<rparr>) = Inl (StatusError 401)"
    by (rule fetch_classification
        [THEN conjunct2, THEN conjunct2, THEN conjunct2, THEN conjunct1, THEN spec, THEN iffD2])
      (simp add: g)
  from 1 2 3 4 show ?thesis by (intro conjI)
qed

section \<open>The driver\<close>

subsection \<open>The loop over the keys\<close>

text \<open>As long as the lookups fail, the loop goes on to the next key and prints nothing.\<close>

lemma tryKeys_all_fail:
  assumes "\<forall>key \<in> set keys. isl (lookup w (TrimSpace key) domain)"
  shows "tryKeys w domain hideRedacted keys st =
         (Done False, st\<lparr>requests := requests st @ requestsFor domain keys\<rparr>)"
  using assms
proof (induction keys arbitrary: st)
  case Nil
  then show ?case by (simp add: requestsFor_def)
next
  case (Cons key keys)
  then obtain e where e: "lookup w (TrimSpace key) domain = Inl e"
    by (cases "lookup w (TrimSpace key) domain") auto
  have "tryKeys w domain hideRedacted (key # keys) st =
        tryKeys w domain hideRedacted keys
          (st\<lparr>requests := requests st @ [requestURL (TrimSpace key) domain]\<rparr>)"
    by (simp add: fetch_eq e)
  also have "\<dots> = (Done False, st\<lparr>requests := requests st @ requestsFor domain (key # keys)\<rparr>)"
    using Cons by (simp add: requestsFor_def)
  finally show ?case .
qed

lemma tryKeys_skip_failed:
  assumes "\<forall>key \<in> set bad. isl (lookup w (TrimSpace key) domain)"
  shows "tryKeys w domain hideRedacted (bad @ keys) st =
         tryKeys w domain hideRedacted keys
           (st\<lparr>requests := requests st @ requestsFor domain bad\<rparr>)"
  using assms
proof (induction bad arbitrary: st)
  case Nil
  then show ?case by (simp add: requestsFor_def)
next
  case (Cons key bad)
  then obtain e where e: "lookup w (TrimSpace key) domain = Inl e"
    by (cases "lookup w (TrimSpace key) domain") auto
  have "tryKeys w domain hideRedacted ((key # bad) @ keys) st =
        tryKeys w domain hideRedacted (bad @ keys)
          (st\<lparr>requests := requests st @ [requestURL (TrimSpace key) domain]\<rparr>)"
    by (simp add: fetch_eq e)
  also have "\<dots> = tryKeys w domain hideRedacted keys
          (st\<lparr>requests := requests st @ requestsFor domain (key # bad)\<rparr>)"
    using Cons by (simp add: requestsFor_def)
  finally show ?case .
qed

text \<open>
  A successful lookup ends the loop. The body that \<open>fetchIP2Whois\<close> returned is decoded
  again; it decoded before, so \<^verbatim>\<open>Error parsing JSON\<close> is never printed.
\<close>

lemma tryKeys_success:
  assumes "lookup w (TrimSpace good) domain = Inr body"
  shows "\<exists>jsonData. Unmarshal w body = Inr jsonData \<and>
         tryKeys w domain hideRedacted (good # rest) st =
           (let st1 = st\<lparr>requests := requests st @ [requestURL (TrimSpace good) domain]\<rparr> in
            case MarshalIndent w (if hideRedacted
                                  then Some (removeRedactedAndEmptyFields (entries jsonData))
                                  else jsonData) of
              Inl err \<Rightarrow> (Exit 1, Println (''Error formatting JSON: '' @ err) st1)
            | Inr cleanedOutput \<Rightarrow> (Done True, Println cleanedOutput st1))"
proof -
  from assms obtain jsonData where "Unmarshal w body = Inr jsonData"
    by (auto simp: lookup_Inr_iff)
  then show ?thesis using assms
    by (simp add: fetch_eq Let_def)
qed

lemma tryKeys_first_success:
  assumes "\<forall>key \<in> set bad. isl (lookup w (TrimSpace key) domain)"
    and "lookup w (TrimSpace good) domain = Inr body"
  shows "\<exists>jsonData. Unmarshal w body = Inr jsonData \<and>
           tryKeys w domain hideRedacted (bad @ good # rest) st =
             (case MarshalIndent w
                     (if hideRedacted
                      then Some (removeRedactedAndEmptyFields (entries jsonData))
                      else jsonData) of
                Inl err \<Rightarrow>
                  (Exit 1, \<lparr>requests = requests st @ requestsFor domain (bad @ [good]),
                            stdout = stdout st @ [''Error formatting JSON: '' @ err]\<rparr>)
              | Inr cleanedOutput \<Rightarrow>
                  (Done True, \<lparr>requests = requests st @ requestsFor domain (bad @ [good]),
                               stdout = stdout st @ [cleanedOutput]\<rparr>))"
proof -
  define st1 where "st1 = st\<lparr>requests := requests st @ requestsFor domain bad\<rparr>"
  obtain jsonData where j: "Unmarshal w body = Inr jsonData"
    and t: "tryKeys w domain hideRedacted (good # rest) st1 =
           (let st2 = st1\<lparr>requests := requests st1 @ [requestURL (TrimSpace good) domain]\<rparr> in
            case MarshalIndent w (if hideRedacted
                                  then Some (removeRedactedAndEmptyFields (entries jsonData))
                                  else jsonData) of
              Inl err \<Rightarrow> (Exit 1, Println (''Error formatting JSON: '' @ err) st2)
            | Inr cleanedOutput \<Rightarrow> (Done True, Println cleanedOutput st2))"
    using tryKeys_success [OF assms(2)] by blast
  have "tryKeys w domain hideRedacted (bad @ good # rest) st =
        tryKeys w domain hideRedacted (good # rest) st1"
    unfolding st1_def by (rule tryKeys_skip_failed [OF assms(1)])
  with t have "tryKeys w domain hideRedacted (bad @ good # rest) st =
             (case MarshalIndent w
                     (if hideRedacted
                      then Some (removeRedactedAndEmptyFields (entries jsonData))
                      else jsonData) of
                Inl err \<Rightarrow>
                  (Exit 1, \<lparr>requests = requests st @ requestsFor domain (bad @ [good]),
                            stdout = stdout st @ [''Error formatting JSON: '' @ err]\<rparr>)
              | Inr cleanedOutput \<Rightarrow>
                  (Done True, \<lparr>requests = requests st @ requestsFor domain (bad @ [good]),
                               stdout = stdout st @ [cleanedOutput]\<rparr>))"
    by (simp add: st1_def Let_def Println_def requestsFor_def split: sum.splits)
  with j show ?thesis by blast
qed

text \<open>Whatever happens, the requests made are those for an initial part of the key list.\<close>

lemma tryKeys_requests_prefix:
  "\<exists>n. requests (snd (tryKeys w domain hideRedacted keys st)) =
        requests st @ requestsFor domain (take n keys)"
proof (induction keys arbitrary: st)
  case Nil
  then show ?case by (simp add: requestsFor_def)
next
  case (Cons key keys)
  define st1 where "st1 = st\<lparr>requests := requests st @ [requestURL (TrimSpace key) domain]\<rparr>"
  show ?case
  proof (cases "lookup w (TrimSpace key) domain")
    case (Inl e)
    then have "tryKeys w domain hideRedacted (key # keys) st =
               tryKeys w domain hideRedacted keys st1"
      by (simp add: fetch_eq st1_def)
    moreover obtain n where "requests (snd (tryKeys w domain hideRedacted keys st1)) =
        requests st1 @ requestsFor domain (take n keys)"
      using Cons.IH by blast
    ultimately have "requests (snd (tryKeys w domain hideRedacted (key # keys) st)) =
        requests st @ requestsFor domain (take (Suc n) (key # keys))"
      by (simp add: st1_def requestsFor_def)
    then show ?thesis by blast
  next
    case (Inr body)
    have "requests (snd (tryKeys w domain hideRedacted (key # keys) st)) =
        requests st @ requestsFor domain (take (Suc 0) (key # keys))"
      using Inr
      by (simp add: fetch_eq requestsFor_def Println_def Let_def split: sum.splits)
    then show ?thesis by blast
  qed
qed

lemma main_requests_prefix:
  assumes "domain \<noteq> []" and "apiKeys \<noteq> []"
  shows "\<exists>n. requests (snd (main w apiKeys domain hideRedacted)) =
              requestsFor domain (take n (Split apiKeys CHR '',''))"
proof -
  define st0 :: state where "st0 = \<lparr>requests = [], stdout = []\<rparr>"
  obtain n where n:
    "requests (snd (tryKeys w domain hideRedacted (Split apiKeys CHR '','') st0)) =
      requests st0 @ requestsFor domain (take n (Split apiKeys CHR '',''))"
    using tryKeys_requests_prefix by blast
  have "requests (snd (main w apiKeys domain hideRedacted)) =
        requests (snd (tryKeys w domain hideRedacted (Split apiKeys CHR '','') st0))"
    using assms
    by (simp add: main_def st0_def Println_def split: prod.splits flow.splits)
  with n show ?thesis by (auto simp: st0_def)
qed

text \<open>
  Different keys give different requests: when no key is written twice in the list, no
  request is made twice.
\<close>

lemma requestURL_inject: "requestURL k domain = requestURL k' domain \<longleftrightarrow> k = k'"
  by (simp add: requestURL_def)

lemma requestsFor_distinct:
  assumes "distinct (map TrimSpace keys)"
  shows "distinct (requestsFor domain keys)"
proof -
  have "requestsFor domain keys = map (\<lambda>k. requestURL k domain) (map TrimSpace keys)"
    by (simp add: requestsFor_def)
  moreover have "inj (\<lambda>k. requestURL k domain)"
    by (rule injI) (simp add: requestURL_inject)
  ultimately show ?thesis using assms
    by (simp only: distinct_map) (auto intro: inj_on_subset)
qed

text \<open>The definitions that a run of the program in one of the two worlds unfolds.\<close>

lemmas run_simps = main_def lookup_def fetchIP2Whois_def requestURL_def hasKey_def Println_def
  requestsFor_def TrimSpace_def TrimLeft.simps TrimRight.simps leadingSpace_def
  trailingSpace_def spaceRunes_def demoWorld_def offline_def demoBody_def errorBody_def
  demoRecord_def Let_def

subsection \<open>The claims about the driver\<close>

text \<open>
  C6, as it is stated, does not hold: a key that failed is used again when the list
  names it again. The program keeps no record of the keys it has tried. With the flag
  \<^verbatim>\<open>-k bad2,bad2,good\<close> in \<open>demoWorld\<close>, the lookup with \<^verbatim>\<open>bad2\<close> fails and the
  same request is made a second time, before the one for \<^verbatim>\<open>good\<close>.
\<close>

theorem repeated_key_is_used_again:
  "Split ''bad2,bad2,good'' CHR '','' = [''bad2'', ''bad2'', ''good''] \<and>
   lookup demoWorld (TrimSpace ''bad2'') ''example.com'' = Inl ApiKeyError \<and>
   lookup demoWorld (TrimSpace ''good'') ''example.com'' = Inr demoBody \<and>
   requests (snd (main demoWorld ''bad2,bad2,good'' ''example.com'' False)) =
     [''https://api.ip2whois.com/v2?key=bad2&domain=example.com'',
      ''https://api.ip2whois.com/v2?key=bad2&domain=example.com'',
      ''https://api.ip2whois.com/v2?key=good&domain=example.com'']"
  by (simp add: run_simps)

text \<open>
  C6, amended. Let the key list be \<open>bad @ good # rest\<close>, where the lookup fails for
  every key of \<open>bad\<close> and succeeds for \<open>good\<close> with the body \<open>body\<close>. Then the requests
  of the run are those for the entries of \<open>bad\<close> and then \<open>good\<close>, one for each entry,
  in the order of the list, and none for \<open>rest\<close>: the entries are tried in order, the
  loop stops at the first success, no entry after it is looked up, and the loop never
  goes back to an entry. A key that the list names several times is looked up once for
  each of its entries up to the first success; when no key is named twice among the
  entries tried, no request is made twice, so no failed key is used again. The one line
  printed is the text of the record decoded from \<open>body\<close>, the response to \<open>good\<close>
  (filtered when \<^verbatim>\<open>-clean\<close> is set), or the message that this record could not be
  formatted; nothing is printed for the keys of \<open>bad\<close>.
\<close>

theorem first_success_wins:
  assumes "domain \<noteq> []" and "apiKeys \<noteq> []"
    and "Split apiKeys CHR '','' = bad @ good # rest"
    and "\<forall>key \<in> set bad. isl (lookup w (TrimSpace key) domain)"
    and "lookup w (TrimSpace good) domain = Inr body"
  shows "(\<exists>resp jsonData.
           Get w (requestURL (TrimSpace good) domain) = Inr resp \<and> Body resp = Inr body \<and>
           Unmarshal w body = Inr jsonData \<and>
           main w apiKeys domain hideRedacted =
             (case MarshalIndent w
                     (if hideRedacted
                      then Some (removeRedactedAndEmptyFields (entries jsonData))
                      else jsonData) of
                Inl err \<Rightarrow>
                  (1, \<lparr>requests = requestsFor domain (bad @ [good]),
                       stdout = [''Error formatting JSON: '' @ err]\<rparr>)
              | Inr cleanedOutput \<Rightarrow>
                  (0, \<lparr>requests = requestsFor domain (bad @ [good]),
                       stdout = [cleanedOutput]\<rparr>))) \<and>
         (distinct (map TrimSpace (bad @ [good])) \<longrightarrow>
            distinct (requestsFor domain (bad @ [good])))"
proof (intro conjI impI)
  assume "distinct (map TrimSpace (bad @ [good]))"
  then show "distinct (requestsFor domain (bad @ [good]))"
    by (rule requestsFor_distinct)
next
  from assms(5) obtain resp where resp:
      "Get w (requestURL (TrimSpace good) domain) = Inr resp" "Body resp = Inr body"
    by (auto simp: lookup_Inr_iff)
  obtain jsonData where j: "Unmarshal w body = Inr jsonData"
    and t: "tryKeys w domain hideRedacted (bad @ good # rest) \<lparr>requests = [], stdout = []\<rparr> =
             (case MarshalIndent w
                     (if hideRedacted
                      then Some (removeRedactedAndEmptyFields (entries jsonData))
                      else jsonData) of
                Inl err \<Rightarrow>
                  (Exit 1, \<lparr>requests = requestsFor domain (bad @ [good]),
                            stdout = [''Error formatting JSON: '' @ err]\<rparr>)
              | Inr cleanedOutput \<Rightarrow>
                  (Done True, \<lparr>requests = requestsFor domain (bad @ [good]),
                               stdout = [cleanedOutput]\<rparr>))"
    using tryKeys_first_success [OF assms(4,5), of hideRedacted rest
        "\<lparr>requests = [], stdout = []\<rparr>"]
    by (auto cong: sum.case_cong)
  from t have "main w apiKeys domain hideRedacted =
             (case MarshalIndent w
                     (if hideRedacted
                      then Some (removeRedactedAndEmptyFields (entries jsonData))
                      else jsonData) of
                Inl err \<Rightarrow>
                  (1, \<lparr>requests = requestsFor domain (bad @ [good]),
                       stdout = [''Error formatting JSON: '' @ err]\<rparr>)
              | Inr cleanedOutput \<Rightarrow>
                  (0, \<lparr>requests = requestsFor domain (bad @ [good]),
                       stdout = [cleanedOutput]\<rparr>))"
    using assms(1,2,3)
    by (simp add: main_def split: sum.splits)
  with resp j show "\<exists>resp jsonData.
           Get w (requestURL (TrimSpace good) domain) = Inr resp \<and> Body resp = Inr body \<and>
           Unmarshal w body = Inr jsonData \<and>
           main w apiKeys domain hideRedacted =
             (case MarshalIndent w
                     (if hideRedacted
                      then Some (removeRedactedAndEmptyFields (entries jsonData))
                      else jsonData) of
                Inl err \<Rightarrow>
                  (1, \<lparr>requests = requestsFor domain (bad @ [good]),
                       stdout = [''Error formatting JSON: '' @ err]\<rparr>)
              | Inr cleanedOutput \<Rightarrow>
                  (0, \<lparr>requests = requestsFor domain (bad @ [good]),
                       stdout = [cleanedOutput]\<rparr>))"
    by blast
qed

theorem first_success_wins_witness:
  "''example.com'' \<noteq> [] \<and> ''bad1, bad2 ,good,other'' \<noteq> [] \<and>
   Split ''bad1, bad2 ,good,other'' CHR '','' = [''bad1'', '' bad2 ''] @ ''good'' # [''other''] \<and>
   isl (lookup demoWorld (TrimSpace ''bad1'') ''example.com'') \<and>
   isl (lookup demoWorld (TrimSpace '' bad2 '') ''example.com'') \<and>
   lookup demoWorld (TrimSpace ''good'') ''example.com'' = Inr demoBody \<and>
   main demoWorld ''bad1, bad2 ,good,other'' ''example.com'' True =
     (0, \<lparr>requests = [''https://api.ip2whois.com/v2?key=bad1&domain=example.com'',
                       ''https://api.ip2whois.com/v2?key=bad2&domain=example.com'',
                       ''https://api.ip2whois.com/v2?key=good&domain=example.com''],
          stdout = [''{domain:example.com}'']\<rparr>) \<and>
   distinct (map TrimSpace ([''bad1'', '' bad2 ''] @ [''good''])) \<and>
   distinct (requestsFor ''example.com'' ([''bad1'', '' bad2 ''] @ [''good'']))"
proof -
  have h1: "''example.com'' \<noteq> []" and h2: "''bad1, bad2 ,good,other'' \<noteq> []"
    by simp_all
  have h3: "Split ''bad1, bad2 ,good,other'' CHR '','' =
            [''bad1'', '' bad2 ''] @ ''good'' # [''other'']"
    by simp
  have b1: "isl (lookup demoWorld (TrimSpace ''bad1'') ''example.com'')"
    and b2: "isl (lookup demoWorld (TrimSpace '' bad2 '') ''example.com'')"
    by (simp_all add: run_simps)
  then have h4: "\<forall>key \<in> set [''bad1'', '' bad2 ''].
              isl (lookup demoWorld (TrimSpace key) ''example.com'')"
    by simp
  have h5: "lookup demoWorld (TrimSpace ''good'') ''example.com'' = Inr demoBody"
    by (simp add: run_simps)
  have u: "Unmarshal demoWorld demoBody = Inr (Some demoRecord)"
    by (simp add: run_simps)
  have m: "MarshalIndent demoWorld (Some (removeRedactedAndEmptyFields demoRecord)) =
           Inr ''{domain:example.com}''"
    by (simp add: run_simps)
  have r: "requestsFor ''example.com'' [''bad1'', '' bad2 '', ''good''] =
      [''https://api.ip2whois.com/v2?key=bad1&domain=example.com'',
       ''https://api.ip2whois.com/v2?key=bad2&domain=example.com'',
       ''https://api.ip2whois.com/v2?key=good&domain=example.com'']"
    by (simp add: run_simps)
  have d: "distinct (map TrimSpace ([''bad1'', '' bad2 ''] @ [''good'']))"
    by (simp add: run_simps)
  note c = first_success_wins [OF h1 h2 h3 h4 h5, of True]
  from c [THEN conjunct1]
  have a: "main demoWorld ''bad1, bad2 ,good,other'' ''example.com'' True =
     (0, \<lparr>requests = [''https://api.ip2whois.com/v2?key=bad1&domain=example.com'',
                       ''https://api.ip2whois.com/v2?key=bad2&domain=example.com'',
                       ''https://api.ip2whois.com/v2?key=good&domain=example.com''],
          stdout = [''{domain:example.com}'']\<rparr>)"
    by (auto simp: u m r)
  from c [THEN conjunct2] d
  have e: "distinct (requestsFor ''example.com'' ([''bad1'', '' bad2 ''] @ [''good'']))"
    by (rule mp)
  from h1 h2 h3 b1 b2 h5 a d e show ?thesis by (intro conjI)
qed

text \<open>
  C8. When the lookup fails for every key of the list, the program makes the requests
  for all of them, prints the one line \<^verbatim>\<open>All API keys failed.\<close> and nothing else,
  and exits with code 1. When the lookup succeeds for some key, the exit code is 0;
  this is with an encoder that does not fail, as \<^verbatim>\<open>json.MarshalIndent\<close> does not on
  a value that \<^verbatim>\<open>json.Unmarshal\<close> produced (with an encoder that fails the program
  exits with 1 after \<^verbatim>\<open>Error formatting JSON\<close>, as C6 shows).
\<close>

theorem exit_code:
  assumes "domain \<noteq> []" and "apiKeys \<noteq> []"
  shows "((\<forall>key \<in> set (Split apiKeys CHR '',''). isl (lookup w (TrimSpace key) domain)) \<longrightarrow>
            main w apiKeys domain hideRedacted =
              (1, \<lparr>requests = requestsFor domain (Split apiKeys CHR '',''),
                   stdout = [''All API keys failed.'']\<rparr>)) \<and>
         ((\<exists>key \<in> set (Split apiKeys CHR '',''). \<not> isl (lookup w (TrimSpace key) domain)) \<and>
          (\<forall>m. \<not> isl (MarshalIndent w m)) \<longrightarrow>
            fst (main w apiKeys domain hideRedacted) = 0)"
proof (intro conjI impI)
  assume "\<forall>key \<in> set (Split apiKeys CHR '',''). isl (lookup w (TrimSpace key) domain)"
  then have "tryKeys w domain hideRedacted (Split apiKeys CHR '','')
               \<lparr>requests = [], stdout = []\<rparr> =
        (Done False, \<lparr>requests = requestsFor domain (Split apiKeys CHR '',''), stdout = []\<rparr>)"
    by (simp add: tryKeys_all_fail)
  then show "main w apiKeys domain hideRedacted =
        (1, \<lparr>requests = requestsFor domain (Split apiKeys CHR '',''),
             stdout = [''All API keys failed.'']\<rparr>)"
    using assms by (simp add: main_def Println_def)
next
  assume a: "(\<exists>key \<in> set (Split apiKeys CHR '',''). \<not> isl (lookup w (TrimSpace key) domain)) \<and>
          (\<forall>m. \<not> isl (MarshalIndent w m))"
  then obtain bad good rest where split: "Split apiKeys CHR '','' = bad @ good # rest"
      and good: "\<not> isl (lookup w (TrimSpace good) domain)"
      and bad: "\<forall>key \<in> set bad. \<not> \<not> isl (lookup w (TrimSpace key) domain)"
    using split_list_first_prop [of "Split apiKeys CHR '',''"
        "\<lambda>key. \<not> isl (lookup w (TrimSpace key) domain)"] by blast
  from good obtain body where body: "lookup w (TrimSpace good) domain = Inr body"
    by (cases "lookup w (TrimSpace good) domain") auto
  from bad have bad': "\<forall>key \<in> set bad. isl (lookup w (TrimSpace key) domain)" by simp
  obtain jsonData where
    t: "tryKeys w domain hideRedacted (bad @ good # rest) \<lparr>requests = [], stdout = []\<rparr> =
             (case MarshalIndent w
                     (if hideRedacted
                      then Some (removeRedactedAndEmptyFields (entries jsonData))
                      else jsonData) of
                Inl err \<Rightarrow>
                  (Exit 1, \<lparr>requests = requestsFor domain (bad @ [good]),
                            stdout = [''Error formatting JSON: '' @ err]\<rparr>)
              | Inr cleanedOutput \<Rightarrow>
                  (Done True, \<lparr>requests = requestsFor domain (bad @ [good]),
                               stdout = [cleanedOutput]\<rparr>))"
    using tryKeys_first_success [OF bad' body, of hideRedacted rest
        "\<lparr>requests = [], stdout = []\<rparr>"]
    by (auto cong: sum.case_cong)
  obtain out where "MarshalIndent w
                     (if hideRedacted
                      then Some (removeRedactedAndEmptyFields (entries jsonData))
                      else jsonData) = Inr out"
    using a by (metis isl_def sum.exhaust)
  with t show "fst (main w apiKeys domain hideRedacted) = 0"
    using assms split by (simp add: main_def)
qed

theorem exit_code_witness:
  "''example.com'' \<noteq> [] \<and> ''x'' \<noteq> [] \<and>
   Split ''x'' CHR '','' = [''x''] \<and>
   isl (lookup offline (TrimSpace ''x'') ''example.com'') \<and>
   main offline ''x'' ''example.com'' False =
     (1, \<lparr>requests = [''https://api.ip2whois.com/v2?key=x&domain=example.com''],
          stdout = [''All API keys failed.'']\<rparr>) \<and>
   ''bad1,good'' \<noteq> [] \<and>
   ''good'' \<in> set (Split ''bad1,good'' CHR '','') \<and>
   \<not> isl (lookup demoWorld (TrimSpace ''good'') ''example.com'') \<and>
   (\<forall>m. \<not> isl (MarshalIndent demoWorld m)) \<and>
   fst (main demoWorld ''bad1,good'' ''example.com'' False) = 0"
proof -
  have h1: "''example.com'' \<noteq> []" and h2: "''x'' \<noteq> []" and h2': "''bad1,good'' \<noteq> []"
    by simp_all
  have s: "Split ''x'' CHR '','' = [''x'']" by simp
  have f: "isl (lookup offline (TrimSpace ''x'') ''example.com'')"
    by (simp add: run_simps)
  have h3: "\<forall>key \<in> set (Split ''x'' CHR '','').
              isl (lookup offline (TrimSpace key) ''example.com'')"
    using f by simp
  have g: "''good'' \<in> set (Split ''bad1,good'' CHR '','')" by simp
  have g': "\<not> isl (lookup demoWorld (TrimSpace ''good'') ''example.com'')"
    by (simp add: run_simps)
  from g g' have h4: "\<exists>key \<in> set (Split ''bad1,good'' CHR '','').
              \<not> isl (lookup demoWorld (TrimSpace key) ''example.com'')"
    by blast
  have h5: "\<forall>m. \<not> isl (MarshalIndent demoWorld m)"
    by (simp add: demoWorld_def)
  have r: "requestsFor ''example.com'' (Split ''x'' CHR '','') =
           [''https://api.ip2whois.com/v2?key=x&domain=example.com'']"
    by (simp add: run_simps)
  from exit_code [OF h1 h2, of offline False] h3
  have a: "main offline ''x'' ''example.com'' False =
     (1, \<lparr>requests = [''https://api.ip2whois.com/v2?key=x&domain=example.com''],
          stdout = [''All API keys failed.'']\<rparr>)"
    unfolding r by blast
  from exit_code [OF h1 h2', of demoWorld False] h4 h5
  have b: "fst (main demoWorld ''bad1,good'' ''example.com'' False) = 0"
    by blast
  from h1 h2 s f a h2' g g' h5 b show ?thesis by (intro conjI)
qed

section \<open>The key list\<close>

subsection \<open>What \<open>Split\<close> computes\<close>

lemma Split_nonempty: "Split s sep \<noteq> []"
  by (induction s) (auto split: list.splits)

lemma Split_no_sep: "t \<in> set (Split s sep) \<Longrightarrow> sep \<notin> set t"
proof (induction s arbitrary: t)
  case Nil
  then show ?case by simp
next
  case (Cons c s)
  then show ?case using Split_nonempty [of s sep]
    by (cases "Split s sep") (auto split: if_splits)
qed

lemma Split_length: "length (Split s sep) = Suc (count_list s sep)"
  using Split_nonempty by (induction s) (auto split: list.splits)

lemma Split_join: "concat (map (\<lambda>t. t @ [sep]) (Split s sep)) = s @ [sep]"
  using Split_nonempty by (induction s) (auto split: list.splits)

subsection \<open>What \<open>TrimSpace\<close> computes\<close>

lemma spaceRunes_nonempty: "r \<in> set spaceRunes \<Longrightarrow> r \<noteq> []"
  by (auto simp: spaceRunes_def)

lemma leadingSpace_0_iff:
  "leadingSpace s = 0 \<longleftrightarrow> (\<forall>r \<in> set spaceRunes. \<not> (\<exists>t. s = r @ t))"
proof (cases "find (HasPrefix s) spaceRunes")
  case None
  then have "leadingSpace s = 0" by (simp add: leadingSpace_def)
  moreover from None have "\<forall>r \<in> set spaceRunes. \<not> HasPrefix s r"
    by (simp add: find_None_iff)
  ultimately show ?thesis by (simp add: HasPrefix_iff)
next
  case (Some r)
  then have "r \<in> set spaceRunes" and "HasPrefix s r"
    by (auto simp: find_Some_iff)
  then show ?thesis using Some spaceRunes_nonempty [of r]
    by (auto simp: leadingSpace_def HasPrefix_iff)
qed

lemma HasPrefix_rev: "HasPrefix (rev s) (rev r) \<longleftrightarrow> (\<exists>t. s = t @ r)"
proof
  assume "HasPrefix (rev s) (rev r)"
  then obtain u where "rev s = rev r @ u" by (auto simp: HasPrefix_iff)
  then have "s = rev u @ r" by (metis rev_append rev_rev_ident)
  then show "\<exists>t. s = t @ r" by blast
next
  assume "\<exists>t. s = t @ r"
  then obtain t where "s = t @ r" by blast
  then have "rev s = rev r @ rev t" by simp
  then show "HasPrefix (rev s) (rev r)" by (auto simp: HasPrefix_iff)
qed

lemma trailingSpace_0_iff:
  "trailingSpace s = 0 \<longleftrightarrow> (\<forall>r \<in> set spaceRunes. \<not> (\<exists>t. s = t @ r))"
proof (cases "find (\<lambda>r. HasPrefix (rev s) (rev r)) spaceRunes")
  case None
  then have "trailingSpace s = 0" by (simp add: trailingSpace_def)
  moreover from None have "\<forall>r \<in> set spaceRunes. \<not> HasPrefix (rev s) (rev r)"
    by (simp add: find_None_iff)
  ultimately show ?thesis by (simp add: HasPrefix_rev)
next
  case (Some r)
  then have "r \<in> set spaceRunes" and "HasPrefix (rev s) (rev r)"
    by (auto simp: find_Some_iff)
  then show ?thesis using Some spaceRunes_nonempty [of r]
    by (auto simp: trailingSpace_def HasPrefix_rev)
qed

lemma leadingSpace_rune:
  assumes "leadingSpace s \<noteq> 0"
  shows "\<exists>r \<in> set spaceRunes. s = r @ drop (leadingSpace s) s"
proof (cases "find (HasPrefix s) spaceRunes")
  case None
  with assms show ?thesis by (simp add: leadingSpace_def)
next
  case (Some r)
  then have r: "r \<in> set spaceRunes" and "HasPrefix s r"
    by (auto simp: find_Some_iff)
  then obtain t where "s = r @ t" by (auto simp: HasPrefix_iff)
  then have "s = r @ drop (length r) s" by simp
  with r Some show ?thesis by (auto simp: leadingSpace_def)
qed

lemma trailingSpace_rune:
  assumes "trailingSpace s \<noteq> 0"
  shows "\<exists>r \<in> set spaceRunes. s = take (length s - trailingSpace s) s @ r"
proof (cases "find (\<lambda>r. HasPrefix (rev s) (rev r)) spaceRunes")
  case None
  with assms show ?thesis by (simp add: trailingSpace_def)
next
  case (Some r)
  then have r: "r \<in> set spaceRunes" and "HasPrefix (rev s) (rev r)"
    by (auto simp: find_Some_iff)
  then obtain t where "s = t @ r" by (auto simp: HasPrefix_rev)
  then have "s = take (length s - length r) s @ r" by simp
  with r Some show ?thesis by (auto simp: trailingSpace_def)
qed

lemma TrimLeft_leading: "leadingSpace (TrimLeft s) = 0"
proof (induction s rule: TrimLeft.induct)
  case (1 s)
  then show ?case by (cases "leadingSpace s = 0") (simp_all add: TrimLeft.simps [of s])
qed

lemma TrimRight_trailing: "trailingSpace (TrimRight s) = 0"
proof (induction s rule: TrimRight.induct)
  case (1 s)
  then show ?case by (cases "trailingSpace s = 0") (simp_all add: TrimRight.simps [of s])
qed

text \<open>What is removed at either end is white space, rune by rune.\<close>

lemma TrimLeft_removed:
  "\<exists>ls. set ls \<subseteq> set spaceRunes \<and> s = concat ls @ TrimLeft s"
proof (induction s rule: TrimLeft.induct)
  case (1 s)
  show ?case
  proof (cases "leadingSpace s = 0")
    case True
    then have "set [] \<subseteq> set spaceRunes \<and> s = concat [] @ TrimLeft s"
      by (simp add: TrimLeft.simps [of s])
    then show ?thesis by blast
  next
    case False
    then obtain r where r: "r \<in> set spaceRunes" "s = r @ drop (leadingSpace s) s"
      using leadingSpace_rune by blast
    from False obtain ls where ls: "set ls \<subseteq> set spaceRunes"
        "drop (leadingSpace s) s = concat ls @ TrimLeft (drop (leadingSpace s) s)"
      using "1.IH" by blast
    have "TrimLeft s = TrimLeft (drop (leadingSpace s) s)"
      using False by (simp add: TrimLeft.simps [of s])
    then have "s = concat (r # ls) @ TrimLeft s"
      using r(2) ls(2) by (metis append.assoc concat.simps(2))
    moreover have "set (r # ls) \<subseteq> set spaceRunes" using r(1) ls(1) by simp
    ultimately show ?thesis by blast
  qed
qed

lemma TrimRight_removed:
  "\<exists>rs. set rs \<subseteq> set spaceRunes \<and> s = TrimRight s @ concat rs"
proof (induction s rule: TrimRight.induct)
  case (1 s)
  show ?case
  proof (cases "trailingSpace s = 0")
    case True
    then have "set [] \<subseteq> set spaceRunes \<and> s = TrimRight s @ concat []"
      by (simp add: TrimRight.simps [of s])
    then show ?thesis by blast
  next
    case False
    define s' where "s' = take (length s - trailingSpace s) s"
    from False obtain r where r: "r \<in> set spaceRunes" "s = s' @ r"
      using trailingSpace_rune s'_def by blast
    from False obtain rs where rs: "set rs \<subseteq> set spaceRunes" "s' = TrimRight s' @ concat rs"
      using "1.IH" s'_def by blast
    have "TrimRight s = TrimRight s'"
      using False by (simp add: TrimRight.simps [of s] s'_def)
    moreover have "concat (rs @ [r]) = concat rs @ r" by simp
    ultimately have "s = TrimRight s @ concat (rs @ [r])"
      using r(2) rs(2) by (metis append.assoc)
    moreover have "set (rs @ [r]) \<subseteq> set spaceRunes" using r(1) rs(1) by simp
    ultimately show ?thesis by blast
  qed
qed

lemma TrimSpace_trimmed:
  "leadingSpace (TrimSpace s) = 0 \<and> trailingSpace (TrimSpace s) = 0"
proof
  show "trailingSpace (TrimSpace s) = 0" by (simp add: TrimSpace_def TrimRight_trailing)
next
  obtain rs where rs: "TrimLeft s = TrimRight (TrimLeft s) @ concat rs"
    using TrimRight_removed by blast
  have "\<not> (\<exists>t. TrimSpace s = r @ t)" if "r \<in> set spaceRunes" for r
  proof
    assume "\<exists>t. TrimSpace s = r @ t"
    then obtain t where "TrimRight (TrimLeft s) = r @ t" by (auto simp: TrimSpace_def)
    with rs have "TrimLeft s = r @ (t @ concat rs)" by simp
    with that show False using TrimLeft_leading [of s] leadingSpace_0_iff by blast
  qed
  then show "leadingSpace (TrimSpace s) = 0" by (simp add: leadingSpace_0_iff)
qed

lemma TrimSpace_removed:
  "\<exists>ls rs. set ls \<subseteq> set spaceRunes \<and> set rs \<subseteq> set spaceRunes \<and>
     s = concat ls @ TrimSpace s @ concat rs"
proof -
  obtain ls where ls: "set ls \<subseteq> set spaceRunes" "s = concat ls @ TrimLeft s"
    using TrimLeft_removed by blast
  obtain rs where rs: "set rs \<subseteq> set spaceRunes"
      "TrimLeft s = TrimRight (TrimLeft s) @ concat rs"
    using TrimRight_removed by blast
  from ls(2) rs(2) have "s = concat ls @ TrimSpace s @ concat rs"
    by (simp add: TrimSpace_def)
  with ls(1) rs(1) show ?thesis by blast
qed

subsection \<open>The claim about the key list\<close>

text \<open>
  C9, as it is stated, does not hold: a token of the key list can be empty. With the
  flag \<^verbatim>\<open>-k a,,b\<close> the list has the empty token between the two commas, and the
  program makes a request with the empty key.
\<close>

theorem empty_key_is_used:
  "Split ''a,,b'' CHR '','' = [''a'', [], ''b''] \<and>
   requests (snd (main offline ''a,,b'' ''example.com'' False)) =
     [''https://api.ip2whois.com/v2?key=a&domain=example.com'',
      ''https://api.ip2whois.com/v2?key=&domain=example.com'',
      ''https://api.ip2whois.com/v2?key=b&domain=example.com'']"
  by (simp add: run_simps)

text \<open>
  C9, amended. The key list is the flag cut at its commas: the tokens have no comma and,
  joined by commas, give the flag back; a token may be empty. The keys that are used are
  the trimmed tokens of an initial part of the list, once each and in the order of the
  list. A trimmed token neither starts nor ends with a white-space rune, and it is the
  token without a run of white-space runes at either end.
\<close>

theorem keys_split_trimmed_in_order:
  assumes "domain \<noteq> []" and "apiKeys \<noteq> []"
  shows "(\<exists>n. requests (snd (main w apiKeys domain hideRedacted)) =
              requestsFor domain (take n (Split apiKeys CHR '','')))
       \<and> concat (map (\<lambda>key. key @ '','') (Split apiKeys CHR '','')) = apiKeys @ '',''
       \<and> (\<forall>key \<in> set (Split apiKeys CHR '','').
            CHR '','' \<notin> set key
          \<and> (\<forall>r \<in> set spaceRunes.
                \<not> (\<exists>t. TrimSpace key = r @ t) \<and> \<not> (\<exists>t. TrimSpace key = t @ r))
          \<and> (\<exists>ls rs. set ls \<subseteq> set spaceRunes \<and> set rs \<subseteq> set spaceRunes \<and>
                key = concat ls @ TrimSpace key @ concat rs))"
proof (intro conjI ballI)
  show "\<exists>n. requests (snd (main w apiKeys domain hideRedacted)) =
              requestsFor domain (take n (Split apiKeys CHR '',''))"
    using assms by (rule main_requests_prefix)
next
  show "concat (map (\<lambda>key. key @ '','') (Split apiKeys CHR '','')) = apiKeys @ '',''"
    by (rule Split_join)
next
  fix key assume "key \<in> set (Split apiKeys CHR '','')"
  then show "CHR '','' \<notin> set key" by (rule Split_no_sep)
next
  fix key r assume "r \<in> set spaceRunes"
  then show "\<not> (\<exists>t. TrimSpace key = r @ t)"
    using TrimSpace_trimmed [of key] leadingSpace_0_iff by blast
next
  fix key r assume "r \<in> set spaceRunes"
  then show "\<not> (\<exists>t. TrimSpace key = t @ r)"
    using TrimSpace_trimmed [of key] trailingSpace_0_iff by blast
next
  fix key
  show "\<exists>ls rs. set ls \<subseteq> set spaceRunes \<and> set rs \<subseteq> set spaceRunes \<and>
                key = concat ls @ TrimSpace key @ concat rs"
    by (rule TrimSpace_removed)
qed

theorem keys_split_trimmed_in_order_witness:
  "''example.com'' \<noteq> [] \<and> '' bad1 ,good,other'' \<noteq> [] \<and>
   '' bad1 '' \<in> set (Split '' bad1 ,good,other'' CHR '','') \<and>
   '' '' \<in> set spaceRunes \<and>
   (\<exists>n. requests (snd (main demoWorld '' bad1 ,good,other'' ''example.com'' False)) =
          requestsFor ''example.com'' (take n (Split '' bad1 ,good,other'' CHR '',''))) \<and>
   concat (map (\<lambda>key. key @ '','') (Split '' bad1 ,good,other'' CHR '','')) =
     '' bad1 ,good,other'' @ '','' \<and>
   CHR '','' \<notin> set '' bad1 '' \<and>
   \<not> (\<exists>t. TrimSpace '' bad1 '' = '' '' @ t) \<and>
   \<not> (\<exists>t. TrimSpace '' bad1 '' = t @ '' '') \<and>
   (\<exists>ls rs. set ls \<subseteq> set spaceRunes \<and> set rs \<subseteq> set spaceRunes \<and>
      '' bad1 '' = concat ls @ TrimSpace '' bad1 '' @ concat rs)"
proof -
  have h1: "''example.com'' \<noteq> []" and h2: "'' bad1 ,good,other'' \<noteq> []" by simp_all
  have k: "'' bad1 '' \<in> set (Split '' bad1 ,good,other'' CHR '','')" by simp
  have r: "'' '' \<in> set spaceRunes" by (simp add: spaceRunes_def)
  note c = keys_split_trimmed_in_order [OF h1 h2, of demoWorld False]
  from c have c1: "\<exists>n. requests (snd (main demoWorld '' bad1 ,good,other'' ''example.com'' False)) =
          requestsFor ''example.com'' (take n (Split '' bad1 ,good,other'' CHR '',''))"
    by (rule conjunct1)
  from c have c2: "concat (map (\<lambda>key. key @ '','') (Split '' bad1 ,good,other'' CHR '','')) =
     '' bad1 ,good,other'' @ '',''"
    by (elim conjE)
  from c have "\<forall>key \<in> set (Split '' bad1 ,good,other'' CHR '','').
            CHR '','' \<notin> set key
          \<and> (\<forall>r \<in> set spaceRunes.
                \<not> (\<exists>t. TrimSpace key = r @ t) \<and> \<not> (\<exists>t. TrimSpace key = t @ r))
          \<and> (\<exists>ls rs. set ls \<subseteq> set spaceRunes \<and> set rs \<subseteq> set spaceRunes \<and>
                key = concat ls @ TrimSpace key @ concat rs)"
    by (elim conjE)
  from this k have c3: "CHR '','' \<notin> set '' bad1 ''
          \<and> (\<forall>r \<in> set spaceRunes.
                \<not> (\<exists>t. TrimSpace '' bad1 '' = r @ t) \<and> \<not> (\<exists>t. TrimSpace '' bad1 '' = t @ r))
          \<and> (\<exists>ls rs. set ls \<subseteq> set spaceRunes \<and> set rs \<subseteq> set spaceRunes \<and>
                '' bad1 '' = concat ls @ TrimSpace '' bad1 '' @ concat rs)"
    by (rule bspec)
  from c3 r have c4: "\<not> (\<exists>t. TrimSpace '' bad1 '' = '' '' @ t) \<and>
      \<not> (\<exists>t. TrimSpace '' bad1 '' = t @ '' '')"
    by blast
  from h1 h2 k r c1 c2 c3 c4 show ?thesis by (intro conjI) blast+
qed

end
